theory Spec2Isabelle
  imports Complex_Main "HOL-Library.Word" "HOL-Library.AList"
begin

unbundle bit_operations_syntax

section \<open>The MVT decoder (src/maps/mvt_decoder.py)\<close>

text \<open>
  Python values are modelled as follows: a \<^verbatim>\<open>bytes\<close> object is a list of 8-bit words, an
  \<^verbatim>\<open>int\<close> is an unbounded \<^typ>\<open>int\<close>, a \<^verbatim>\<open>str\<close> is the list of its code points, a
  \<^verbatim>\<open>dict\<close> is an association list in insertion order (assignment to a present key keeps
  the key's position, as \<^const>\<open>AList.update\<close> does), and every exception the decoder can
  raise is a constructor of \<open>error\<close>.
\<close>

type_synonym byte = "8 word"
type_synonym pystr = "nat list"

datatype error = TruncatedVarint | StructError | OverflowError | AttributeError | TypeError

subsection \<open>Protobuf wire format\<close>

text \<open>\<^verbatim>\<open>_read_varint(buf, pos)\<close>: the \<^verbatim>\<open>while True\<close> loop with its two accumulators.\<close>

function read_varint_loop :: "byte list \<Rightarrow> nat \<Rightarrow> int \<Rightarrow> nat \<Rightarrow> error + (int \<times> nat)" where
  "read_varint_loop buf pos result shift =
     (if pos \<ge> length buf then Inl TruncatedVarint
      else
        let b = buf ! pos;
            pos' = pos + 1;
            result' = result OR push_bit shift (uint (b AND 0x7F))
        in if b AND 0x80 = 0 then Inr (result', pos')
           else read_varint_loop buf pos' result' (shift + 7))"
  by pat_completeness auto
termination
  by (relation "measure (\<lambda>(buf, pos, result, shift). length buf - pos)") auto

definition read_varint :: "byte list \<Rightarrow> nat \<Rightarrow> error + (int \<times> nat)" where
  "read_varint buf pos = read_varint_loop buf pos 0 0"

text \<open>The zig-zag expression \<^verbatim>\<open>(v >> 1) ^ -(v & 1)\<close>, written inline at each use in the source.\<close>

definition zigzag :: "int \<Rightarrow> int" where
  "zigzag v = (drop_bit 1 v) XOR (- (v AND 1))"

text \<open>
  One item yielded by the generator \<^verbatim>\<open>_parse_message\<close>. The constructor is the wire type
  (0 varint, 2 length-delimited, 5 32-bit, 1 64-bit), its first argument the field number;
  the two fixed-width kinds keep the little-endian bytes that \<^verbatim>\<open>struct.unpack_from\<close>
  turns into a float.
\<close>

datatype pfield =
    FVarint int int
  | FBytes int "byte list"
  | FFixed32 int "byte list"
  | FFixed64 int "byte list"

lemma read_varint_loop_advances:
  "read_varint_loop buf pos r s = Inr (v, p) \<Longrightarrow> pos < p \<and> p \<le> length buf"
proof (induction buf pos r s rule: read_varint_loop.induct)
  case (1 buf pos result shift)
  show ?case
  proof (cases "pos \<ge> length buf")
    case True
    with "1.prems" show ?thesis by simp
  next
    case False
    note inside = False
    show ?thesis
    proof (cases "buf ! pos AND 0x80 = 0")
      case True
      with inside "1.prems" show ?thesis by (auto simp: Let_def)
    next
      case False
      with inside "1.prems" have
        "read_varint_loop buf (pos + 1) (result OR push_bit shift (uint (buf ! pos AND 0x7F))) (shift + 7)
           = Inr (v, p)"
        by (simp add: Let_def)
      with "1.IH"[OF inside refl refl refl False] have "pos + 1 < p \<and> p \<le> length buf" by simp
      then show ?thesis by simp
    qed
  qed
qed

lemma read_varint_advances:
  "read_varint buf pos = Inr (v, p) \<Longrightarrow> pos < p \<and> p \<le> length buf"
  unfolding read_varint_def by (rule read_varint_loop_advances)

text \<open>
  \<^verbatim>\<open>_parse_message(buf)\<close> is a generator whose body does not depend on its consumer, so a
  run of it is the list of the items it yields followed by how it ends: \<open>None\<close> when it
  stops (end of buffer, or the \<^verbatim>\<open>break\<close> on an unknown wire type), \<open>Some e\<close> when it raises.
  Every call in the source uses \<^verbatim>\<open>start=0, end=len(buf)\<close>; slices are clipped to the
  buffer as Python's are.
\<close>

definition yield :: "pfield \<Rightarrow> pfield list \<times> error option \<Rightarrow> pfield list \<times> error option" where
  "yield f rest = (f # fst rest, snd rest)"

function parse_message_from :: "byte list \<Rightarrow> nat \<Rightarrow> pfield list \<times> error option" where
  "parse_message_from buf pos =
     (if pos < length buf then
        (case read_varint buf pos of
           Inl e \<Rightarrow> ([], Some e)
         | Inr (tag, pos1) \<Rightarrow>
             let field = drop_bit 3 tag; wtype = tag AND 0x07 in
             if wtype = 0 then
               (case read_varint buf pos1 of
                  Inl e \<Rightarrow> ([], Some e)
                | Inr (val, pos2) \<Rightarrow> yield (FVarint field val) (parse_message_from buf pos2))
             else if wtype = 2 then
               (case read_varint buf pos1 of
                  Inl e \<Rightarrow> ([], Some e)
                | Inr (len, pos2) \<Rightarrow>
                    yield (FBytes field (take (nat len) (drop pos2 buf)))
                      (parse_message_from buf (pos2 + nat len)))
             else if wtype = 5 then
               (if length buf < pos1 + 4 then ([], Some StructError)
                else yield (FFixed32 field (take 4 (drop pos1 buf))) (parse_message_from buf (pos1 + 4)))
             else if wtype = 1 then
               (if length buf < pos1 + 8 then ([], Some StructError)
                else yield (FFixed64 field (take 8 (drop pos1 buf))) (parse_message_from buf (pos1 + 8)))
             else ([], None))
      else ([], None))"
  by pat_completeness auto
termination
proof (relation "measure (\<lambda>(buf, pos). length buf - pos)", goal_cases)
  case 1
  show ?case by simp
next
  case (2 buf pos x tag pos1 field wtype y val pos2)
  from read_varint_advances[of buf pos tag pos1] read_varint_advances[of buf pos1 val pos2] 2
  show ?case by auto
next
  case (3 buf pos x tag pos1 field wtype y len pos2)
  from read_varint_advances[of buf pos tag pos1] read_varint_advances[of buf pos1 len pos2] 3
  show ?case by auto
next
  case (4 buf pos x tag pos1 field wtype)
  from read_varint_advances[of buf pos tag pos1] 4
  show ?case by auto
next
  case (5 buf pos x tag pos1 field wtype)
  from read_varint_advances[of buf pos tag pos1] 5
  show ?case by auto
qed

definition parse_message :: "byte list \<Rightarrow> pfield list \<times> error option" where
  "parse_message buf = parse_message_from buf 0"

text \<open>\<^verbatim>\<open>_decode_packed_uint32(buf)\<close>.\<close>

function decode_packed_from :: "byte list \<Rightarrow> nat \<Rightarrow> int list \<Rightarrow> error + int list" where
  "decode_packed_from buf pos vals =
     (if pos < length buf then
        (case read_varint buf pos of
           Inl e \<Rightarrow> Inl e
         | Inr (v, pos') \<Rightarrow> decode_packed_from buf pos' (vals @ [v]))
      else Inr vals)"
  by pat_completeness auto
termination
proof (relation "measure (\<lambda>(buf, pos, vals). length buf - pos)", goal_cases)
  case 1
  show ?case by simp
next
  case (2 buf pos vals x v pos')
  from read_varint_advances[of buf pos v pos'] 2 show ?case by auto
qed

definition decode_packed_uint32 :: "byte list \<Rightarrow> error + int list" where
  "decode_packed_uint32 buf = decode_packed_from buf 0 []"

subsection \<open>Strings\<close>

text \<open>
  \<^verbatim>\<open>val.decode("utf-8", errors="replace")\<close>: the code points of a byte string, every
  maximal ill-formed part replaced by U+FFFD, as CPython's decoder does. Each byte of the
  input belongs to a part that yields one code point, so only the empty byte string decodes
  to the empty string.
\<close>

definition is_cont :: "byte \<Rightarrow> bool" where
  "is_cont b = (b AND 0xC0 = 0x80)"

definition second_ok :: "nat \<Rightarrow> nat \<Rightarrow> bool" where
  "second_ok c c1 =
     (if c = 0xE0 then 0xA0 \<le> c1 \<and> c1 \<le> 0xBF
      else if c = 0xED then 0x80 \<le> c1 \<and> c1 \<le> 0x9F
      else if c = 0xF0 then 0x90 \<le> c1 \<and> c1 \<le> 0xBF
      else if c = 0xF4 then 0x80 \<le> c1 \<and> c1 \<le> 0x8F
      else 0x80 \<le> c1 \<and> c1 \<le> 0xBF)"

fun utf8_decode_replace :: "byte list \<Rightarrow> pystr" where
  "utf8_decode_replace [] = []"
| "utf8_decode_replace (b # bs) =
     (let c = unat b in
      if c < 0x80 then c # utf8_decode_replace bs
      else if 0xC2 \<le> c \<and> c \<le> 0xDF then
        (case bs of
           [] \<Rightarrow> [0xFFFD]
         | b1 # r1 \<Rightarrow>
             if is_cont b1 then ((c - 0xC0) * 64 + (unat b1 - 0x80)) # utf8_decode_replace r1
             else 0xFFFD # utf8_decode_replace bs)
      else if 0xE0 \<le> c \<and> c \<le> 0xEF then
        (case bs of
           [] \<Rightarrow> [0xFFFD]
         | b1 # r1 \<Rightarrow>
             if second_ok c (unat b1) then
               (case r1 of
                  [] \<Rightarrow> [0xFFFD]
                | b2 # r2 \<Rightarrow>
                    if is_cont b2 then
                      ((c - 0xE0) * 4096 + (unat b1 - 0x80) * 64 + (unat b2 - 0x80))
                        # utf8_decode_replace r2
                    else 0xFFFD # utf8_decode_replace r1)
             else 0xFFFD # utf8_decode_replace bs)
      else if 0xF0 \<le> c \<and> c \<le> 0xF4 then
        (case bs of
           [] \<Rightarrow> [0xFFFD]
         | b1 # r1 \<Rightarrow>
             if second_ok c (unat b1) then
               (case r1 of
                  [] \<Rightarrow> [0xFFFD]
                | b2 # r2 \<Rightarrow>
                    if is_cont b2 then
                      (case r2 of
                         [] \<Rightarrow> [0xFFFD]
                       | b3 # r3 \<Rightarrow>
                           if is_cont b3 then
                             ((c - 0xF0) * 262144 + (unat b1 - 0x80) * 4096
                                + (unat b2 - 0x80) * 64 + (unat b3 - 0x80))
                               # utf8_decode_replace r3
                           else 0xFFFD # utf8_decode_replace r2)
                    else 0xFFFD # utf8_decode_replace r1)
             else 0xFFFD # utf8_decode_replace bs)
      else 0xFFFD # utf8_decode_replace bs)"

subsection \<open>Value messages\<close>

text \<open>
  What \<^verbatim>\<open>_decode_value\<close> returns: a decoded string, the raw \<^verbatim>\<open>val\<close> of the field (an int,
  a bytes object or a float, kept as its bytes), a bool, or \<^verbatim>\<open>None\<close>.
\<close>

datatype mvalue =
    VStr pystr
  | VInt int
  | VRawBytes "byte list"
  | VFloat32 "byte list"
  | VFloat64 "byte list"
  | VBool bool
  | VNone

definition field_no :: "pfield \<Rightarrow> int" where
  "field_no f = (case f of FVarint n _ \<Rightarrow> n | FBytes n _ \<Rightarrow> n | FFixed32 n _ \<Rightarrow> n | FFixed64 n _ \<Rightarrow> n)"

definition raw_value :: "pfield \<Rightarrow> mvalue" where
  "raw_value f = (case f of FVarint _ v \<Rightarrow> VInt v | FBytes _ bs \<Rightarrow> VRawBytes bs
                  | FFixed32 _ bs \<Rightarrow> VFloat32 bs | FFixed64 _ bs \<Rightarrow> VFloat64 bs)"

text \<open>\<^verbatim>\<open>bool(x)\<close> of a float given by its little-endian bytes: false for +0.0 and -0.0 only.\<close>

definition float_bytes_nonzero :: "byte list \<Rightarrow> bool" where
  "float_bytes_nonzero bs =
     ((\<exists>b \<in> set (butlast bs). b \<noteq> 0) \<or> (bs \<noteq> [] \<and> last bs AND 0x7F \<noteq> 0))"

definition truthy :: "pfield \<Rightarrow> bool" where
  "truthy f = (case f of FVarint _ v \<Rightarrow> v \<noteq> 0 | FBytes _ bs \<Rightarrow> bs \<noteq> []
               | FFixed32 _ bs \<Rightarrow> float_bytes_nonzero bs | FFixed64 _ bs \<Rightarrow> float_bytes_nonzero bs)"

text \<open>
  \<^verbatim>\<open>_decode_value(data)\<close> returns from inside the loop at the first field numbered 1 to 7, so
  the generator is consumed only up to that field: a failure later in the message is never
  raised. Field 1 calls \<^verbatim>\<open>val.decode\<close>, which only bytes have; field 6 shifts \<^verbatim>\<open>val\<close>, which
  only an int supports.
\<close>

fun decode_value_fields :: "pfield list \<Rightarrow> error option \<Rightarrow> error + mvalue" where
  "decode_value_fields [] ending = (case ending of Some e \<Rightarrow> Inl e | None \<Rightarrow> Inr VNone)"
| "decode_value_fields (f # fs) ending =
     (let field = field_no f in
      if field = 1 then (case f of FBytes _ bs \<Rightarrow> Inr (VStr (utf8_decode_replace bs)) | _ \<Rightarrow> Inl AttributeError)
      else if field = 2 then Inr (raw_value f)
      else if field = 3 then Inr (raw_value f)
      else if field = 4 then Inr (raw_value f)
      else if field = 5 then Inr (raw_value f)
      else if field = 6 then (case f of FVarint _ v \<Rightarrow> Inr (VInt (zigzag v)) | _ \<Rightarrow> Inl TypeError)
      else if field = 7 then Inr (VBool (truthy f))
      else decode_value_fields fs ending)"

definition decode_value :: "byte list \<Rightarrow> error + mvalue" where
  "decode_value data = (case parse_message data of (fs, ending) \<Rightarrow> decode_value_fields fs ending)"

subsection \<open>Geometry command streams\<close>

type_synonym point = "int \<times> int"
type_synonym ring = "point list"

datatype geometry =
    Point point
  | MultiPoint "point list"
  | LineString "point list"
  | MultiLineString "ring list"
  | Polygon "ring list"
  | MultiPolygon "ring list list"
  | Unknown

text \<open>The local variables of \<^verbatim>\<open>_decode_geometry\<close> that its command loop updates.\<close>

record cursor =
  c_idx :: nat
  c_cx :: int
  c_cy :: int
  c_rings :: "ring list"
  c_current_ring :: ring

text \<open>
  The two \<^verbatim>\<open>for _ in range(cmd_count)\<close> loops, each with its \<^verbatim>\<open>break\<close> when fewer than two
  parameters are left.
\<close>

fun move_to :: "int list \<Rightarrow> nat \<Rightarrow> cursor \<Rightarrow> cursor" where
  "move_to commands 0 s = s"
| "move_to commands (Suc n) s =
     (if c_idx s + 1 \<ge> length commands then s
      else
        let dx = zigzag (commands ! c_idx s);
            dy = zigzag (commands ! (c_idx s + 1));
            cx = c_cx s + dx;
            cy = c_cy s + dy
        in move_to commands n
             \<lparr>c_idx = c_idx s + 2, c_cx = cx, c_cy = cy,
              c_rings = (if c_current_ring s \<noteq> [] then c_rings s @ [c_current_ring s] else c_rings s),
              c_current_ring = [(cx, cy)]\<rparr>)"

fun line_to :: "int list \<Rightarrow> nat \<Rightarrow> cursor \<Rightarrow> cursor" where
  "line_to commands 0 s = s"
| "line_to commands (Suc n) s =
     (if c_idx s + 1 \<ge> length commands then s
      else
        let dx = zigzag (commands ! c_idx s);
            dy = zigzag (commands ! (c_idx s + 1));
            cx = c_cx s + dx;
            cy = c_cy s + dy
        in line_to commands n
             \<lparr>c_idx = c_idx s + 2, c_cx = cx, c_cy = cy,
              c_rings = c_rings s,
              c_current_ring = c_current_ring s @ [(cx, cy)]\<rparr>)"

definition close_path :: "cursor \<Rightarrow> cursor" where
  "close_path s =
     (let cur = c_current_ring s;
          cur' = (if cur \<noteq> [] \<and> length cur \<ge> 2 then cur @ [cur ! 0] else cur)
      in if cur' \<noteq> [] then s\<lparr>c_rings := c_rings s @ [cur'], c_current_ring := []\<rparr> else s)"

lemma move_to_idx: "c_idx s \<le> c_idx (move_to commands n s)"
proof (induction n arbitrary: s)
  case 0
  show ?case by simp
next
  case (Suc n)
  show ?case
  proof (cases "c_idx s + 1 \<ge> length commands")
    case True
    then show ?thesis by simp
  next
    case False
    then show ?thesis
      using Suc.IH[of "\<lparr>c_idx = c_idx s + 2, c_cx = c_cx s + zigzag (commands ! c_idx s),
              c_cy = c_cy s + zigzag (commands ! (c_idx s + 1)),
              c_rings = (if c_current_ring s \<noteq> [] then c_rings s @ [c_current_ring s] else c_rings s),
              c_current_ring = [(c_cx s + zigzag (commands ! c_idx s),
                                 c_cy s + zigzag (commands ! (c_idx s + 1)))]\<rparr>"]
      by (simp add: Let_def)
  qed
qed

lemma line_to_idx: "c_idx s \<le> c_idx (line_to commands n s)"
proof (induction n arbitrary: s)
  case 0
  show ?case by simp
next
  case (Suc n)
  show ?case
  proof (cases "c_idx s + 1 \<ge> length commands")
    case True
    then show ?thesis by simp
  next
    case False
    then show ?thesis
      using Suc.IH[of "\<lparr>c_idx = c_idx s + 2, c_cx = c_cx s + zigzag (commands ! c_idx s),
              c_cy = c_cy s + zigzag (commands ! (c_idx s + 1)),
              c_rings = c_rings s,
              c_current_ring = c_current_ring s @ [(c_cx s + zigzag (commands ! c_idx s),
                                 c_cy s + zigzag (commands ! (c_idx s + 1)))]\<rparr>"]
      by (simp add: Let_def)
  qed
qed

lemma close_path_idx: "c_idx (close_path s) = c_idx s"
  by (simp add: close_path_def Let_def)

text \<open>The \<^verbatim>\<open>while idx < len(commands)\<close> loop. A command id other than 1, 2, 7 only advances.\<close>

function decode_commands :: "int list \<Rightarrow> cursor \<Rightarrow> cursor" where
  "decode_commands commands s =
     (if c_idx s < length commands then
        let cmd_int = commands ! c_idx s;
            s1 = s\<lparr>c_idx := c_idx s + 1\<rparr>;
            cmd_id = cmd_int AND 0x07;
            cmd_count = drop_bit 3 cmd_int
        in if cmd_id = 1 then decode_commands commands (move_to commands (nat cmd_count) s1)
           else if cmd_id = 2 then decode_commands commands (line_to commands (nat cmd_count) s1)
           else if cmd_id = 7 then decode_commands commands (close_path s1)
           else decode_commands commands s1
      else s)"
  by pat_completeness auto
termination
proof (relation "measure (\<lambda>(commands, s). length commands - c_idx s)", goal_cases)
  case 1
  show ?case by simp
next
  case (2 commands s cmd_int s1 cmd_id cmd_count)
  with move_to_idx[of s1 commands "nat cmd_count"] show ?case by auto
next
  case (3 commands s cmd_int s1 cmd_id cmd_count)
  with line_to_idx[of s1 commands "nat cmd_count"] show ?case by auto
next
  case (4 commands s cmd_int s1 cmd_id cmd_count)
  then show ?case by (auto simp: close_path_idx)
next
  case (5 commands s cmd_int s1 cmd_id cmd_count)
  then show ?case by auto
qed

subsection \<open>Signed area and polygon grouping\<close>

text \<open>
  \<^verbatim>\<open>_signed_area(ring)\<close> accumulates an exact integer and returns \<^verbatim>\<open>area / 2.0\<close>. The division
  converts the integer to a double, which raises \<^verbatim>\<open>OverflowError\<close> when the integer rounds to
  \<open>2 ^ 1024\<close> or beyond; otherwise the float result has the sign of the exact quotient,
  which is what the model returns and all that the caller looks at.
\<close>

definition shoelace :: "ring \<Rightarrow> int" where
  "shoelace ring =
     foldl (\<lambda>area i. let j = (i + 1) mod length ring
                      in area + fst (ring ! i) * snd (ring ! j) - fst (ring ! j) * snd (ring ! i))
       0 [0..<length ring]"

definition int_to_float_overflows :: "int \<Rightarrow> bool" where
  "int_to_float_overflows a = (\<bar>a\<bar> \<ge> 2 ^ 1024 - 2 ^ 970)"

definition signed_area :: "ring \<Rightarrow> error + rat" where
  "signed_area ring =
     (let area = shoelace ring
      in if int_to_float_overflows area then Inl OverflowError else Inr (of_int area / 2))"

text \<open>
  The \<^verbatim>\<open>for ring in rings\<close> loop of the polygon branch, with its two variables \<^verbatim>\<open>polygons\<close>
  and \<^verbatim>\<open>current_polygon\<close> (\<open>None\<close> until the first ring).
\<close>

fun group_rings ::
  "ring list \<Rightarrow> ring list list \<Rightarrow> ring list option \<Rightarrow> error + (ring list list \<times> ring list option)" where
  "group_rings [] polygons current_polygon = Inr (polygons, current_polygon)"
| "group_rings (ring # rest) polygons current_polygon =
     (case signed_area ring of
        Inl e \<Rightarrow> Inl e
      | Inr area \<Rightarrow>
          if area \<ge> 0 then
            (case current_polygon of
               None \<Rightarrow> group_rings rest polygons (Some [ring])
             | Some p \<Rightarrow> group_rings rest (polygons @ [p]) (Some [ring]))
          else
            (case current_polygon of
               None \<Rightarrow> group_rings rest polygons (Some [ring])
             | Some p \<Rightarrow> group_rings rest polygons (Some (p @ [ring]))))"

definition polygon_groups :: "ring list \<Rightarrow> error + ring list list" where
  "polygon_groups rings =
     (case group_rings rings [] None of
        Inl e \<Rightarrow> Inl e
      | Inr (polygons, current_polygon) \<Rightarrow>
          Inr (case current_polygon of None \<Rightarrow> polygons | Some p \<Rightarrow> polygons @ [p]))"

definition polygon_geometry :: "ring list \<Rightarrow> error + geometry" where
  "polygon_geometry rings =
     (case polygon_groups rings of
        Inl e \<Rightarrow> Inl e
      | Inr polygons \<Rightarrow>
          if length polygons = 1 then Inr (Polygon (polygons ! 0)) else Inr (MultiPolygon polygons))"

text \<open>\<^verbatim>\<open>_decode_geometry(geom_data, geom_type, extent, y_coord_down)\<close>.\<close>

definition decode_geometry :: "byte list \<Rightarrow> int \<Rightarrow> int \<Rightarrow> bool \<Rightarrow> error + geometry" where
  "decode_geometry geom_data geom_type extent y_coord_down =
     (case decode_packed_uint32 geom_data of
        Inl e \<Rightarrow> Inl e
      | Inr commands \<Rightarrow>
          let s = decode_commands commands
                    \<lparr>c_idx = 0, c_cx = 0, c_cy = 0, c_rings = [], c_current_ring = []\<rparr>;
              rings0 = (if c_current_ring s \<noteq> [] then c_rings s @ [c_current_ring s] else c_rings s);
              rings = (if \<not> y_coord_down then map (map (\<lambda>(x, y). (x, extent - y))) rings0 else rings0)
          in if geom_type = 1 then
               (let points = concat rings
                in if length points = 1 then Inr (Point (points ! 0)) else Inr (MultiPoint points))
             else if geom_type = 2 then
               (if length rings = 1 then Inr (LineString (rings ! 0)) else Inr (MultiLineString rings))
             else if geom_type = 3 then polygon_geometry rings
             else Inr Unknown)"

subsection \<open>Properties of the polygon grouping\<close>

text \<open>The list \<^verbatim>\<open>polygons\<close> after the final \<^verbatim>\<open>if current_polygon is not None\<close> append.\<close>

definition finish :: "ring list list \<times> ring list option \<Rightarrow> ring list list" where
  "finish st = (case snd st of None \<Rightarrow> fst st | Some p \<Rightarrow> fst st @ [p])"

lemma polygon_groups_finish:
  "polygon_groups rings = (case group_rings rings [] None of Inl e \<Rightarrow> Inl e | Inr st \<Rightarrow> Inr (finish st))"
  by (auto simp: polygon_groups_def finish_def split: sum.splits prod.splits option.splits)

lemma group_rings_append:
  "group_rings (xs @ ys) P c =
     (case group_rings xs P c of Inl e \<Rightarrow> Inl e | Inr (P', c') \<Rightarrow> group_rings ys P' c')"
  by (induction xs arbitrary: P c) (auto split: sum.splits option.splits)

lemma group_rings_stays_open:
  "group_rings rings P (Some p) = Inr (P', c') \<Longrightarrow> c' \<noteq> None"
  by (induction rings arbitrary: P p) (auto split: sum.splits if_splits)

lemma group_rings_none:
  "group_rings rings P c = Inr (P', None) \<Longrightarrow> rings = [] \<and> c = None \<and> P' = P"
  by (cases rings; cases c) (auto split: sum.splits if_splits dest: group_rings_stays_open)



lemma group_rings_partition:
  "group_rings rings P c = Inr st \<Longrightarrow>
     concat (finish st) = concat (finish (P, c)) @ rings \<and>
     ([] \<notin> set (finish (P, c)) \<longrightarrow> [] \<notin> set (finish st))"
proof (induction rings arbitrary: P c)
  case Nil
  then show ?case by simp
next
  case (Cons r rest)
  then show ?case
    by (cases c) (auto simp: finish_def split: sum.splits if_splits)
qed

lemma group_rings_keeps_open:
  "group_rings rings P (Some p) = Inr st \<Longrightarrow> \<exists>q qs. finish st = P @ (p @ q) # qs"
proof (induction rings arbitrary: P p)
  case Nil
  then show ?case by (auto simp: finish_def)
next
  case (Cons r rest)
  from Cons.prems obtain a where a: "signed_area r = Inr a"
    by (auto split: sum.splits)
  show ?case
  proof (cases "a \<ge> 0")
    case True
    with a Cons.prems have "group_rings rest (P @ [p]) (Some [r]) = Inr st" by simp
    from Cons.IH[OF this] obtain q qs where "finish st = (P @ [p]) @ ([r] @ q) # qs" by blast
    then have "finish st = P @ (p @ []) # (([r] @ q) # qs)" by simp
    then show ?thesis by blast
  next
    case False
    with a Cons.prems have "group_rings rest P (Some (p @ [r])) = Inr st" by simp
    from Cons.IH[OF this] obtain q qs where "finish st = P @ ((p @ [r]) @ q) # qs" by blast
    then have "finish st = P @ (p @ (r # q)) # qs" by simp
    then show ?thesis by blast
  qed
qed

lemma polygon_groups_snoc_exterior:
  assumes "polygon_groups rings = Inr ps" "signed_area r = Inr a" "a \<ge> 0"
  shows "polygon_groups (rings @ [r]) = Inr (ps @ [[r]])"
  using assms unfolding polygon_groups_def
  by (auto simp: group_rings_append split: sum.splits option.splits prod.splits)

lemma polygon_groups_snoc_hole:
  assumes "polygon_groups rings = Inr ps" "signed_area r = Inr a" "a < 0"
  shows "polygon_groups (rings @ [r]) = Inr (if ps = [] then [[r]] else butlast ps @ [last ps @ [r]])"
  using assms unfolding polygon_groups_def
  by (auto simp: group_rings_append split: sum.splits option.splits prod.splits dest: group_rings_none)

lemma polygon_groups_partition:
  assumes "polygon_groups rings = Inr ps"
  shows "concat ps = rings \<and> [] \<notin> set ps"
  using assms group_rings_partition[of rings "[]" None]
  by (auto simp: polygon_groups_finish finish_def split: sum.splits)

lemma polygon_groups_total:
  assumes "\<forall>r \<in> set rings. \<not> int_to_float_overflows (shoelace r)"
  shows "\<exists>ps. polygon_groups rings = Inr ps"
proof -
  have "\<exists>st. group_rings rings P c = Inr st" for P c
    using assms
    by (induction rings arbitrary: P c) (auto simp: signed_area_def Let_def split: option.splits)
  from this[of "[]" None] obtain st where "group_rings rings [] None = Inr st" by blast
  then show ?thesis
    by (simp add: polygon_groups_finish)
qed

text \<open>Two fixtures: the unit square, clockwise and counter-clockwise in Y-down orientation.\<close>

definition unit_square_cw :: ring where
  "unit_square_cw = [(0, 0), (1, 0), (1, 1), (0, 1), (0, 0)]"

definition unit_square_ccw :: ring where
  "unit_square_ccw = [(0, 0), (0, 1), (1, 1), (1, 0), (0, 0)]"

text \<open>
  Claim C6. The polygon branch partitions the rings, in order, into non-empty groups by the
  sign of the shoelace signed area: after any rings that grouped into \<open>ps\<close>, a ring of area
  \<open>\<ge> 0\<close> closes the open polygon and opens a new one (\<open>ps @ [[e]]\<close>), a ring of area
  \<open>< 0\<close> is appended to the open polygon (the last group), and the geometry emitted is
  \<open>Polygon\<close> when there is exactly one group and \<open>MultiPolygon\<close> otherwise.
\<close>

theorem polygon_grouping_by_area_sign:
  assumes "polygon_groups rings = Inr ps"
    and "signed_area e = Inr a" and "a \<ge> 0"
    and "signed_area h = Inr b" and "b < 0"
  shows "concat ps = rings \<and> [] \<notin> set ps
    \<and> polygon_groups (rings @ [e]) = Inr (ps @ [[e]])
    \<and> (ps \<noteq> [] \<longrightarrow> polygon_groups (rings @ [h]) = Inr (butlast ps @ [last ps @ [h]]))
    \<and> polygon_geometry rings = Inr (if length ps = 1 then Polygon (ps ! 0) else MultiPolygon ps)"
  using polygon_groups_partition[OF assms(1)]
    polygon_groups_snoc_exterior[OF assms(1,2,3)]
    polygon_groups_snoc_hole[OF assms(1,4,5)] assms(1)
  by (simp add: polygon_geometry_def)

theorem polygon_grouping_by_area_sign_witness:
  "polygon_groups [unit_square_cw] = Inr [[unit_square_cw]]
   \<and> signed_area unit_square_cw = Inr 1 \<and> signed_area unit_square_ccw = Inr (- 1)
   \<and> polygon_groups [unit_square_cw, unit_square_cw] = Inr [[unit_square_cw], [unit_square_cw]]
   \<and> polygon_groups [unit_square_cw, unit_square_ccw] = Inr [[unit_square_cw, unit_square_ccw]]
   \<and> polygon_geometry [unit_square_cw] = Inr (Polygon [unit_square_cw])"
proof -
  have g: "polygon_groups [unit_square_cw] = Inr [[unit_square_cw]]" by code_simp
  have e: "signed_area unit_square_cw = Inr 1" by code_simp
  have h: "signed_area unit_square_ccw = Inr (- 1)" by code_simp
  from polygon_grouping_by_area_sign[OF g e _ h] g e h show ?thesis by simp
qed

text \<open>
  Claim C10. A hole ring (signed area \<open>< 0\<close>) that arrives before any exterior ring is not
  discarded: it opens a polygon whose first ring is that hole, and that polygon is the first
  one of the emitted \<open>Polygon\<close> or \<open>MultiPolygon\<close>.
\<close>

theorem leading_hole_opens_polygon:
  assumes "signed_area h = Inr a" and "a < 0"
    and "polygon_groups (h # rest) = Inr ps"
  shows "\<exists>q qs. ps = (h # q) # qs
     \<and> polygon_geometry (h # rest) = Inr (if qs = [] then Polygon (h # q) else MultiPolygon ((h # q) # qs))"
proof -
  from assms obtain st where st: "group_rings rest [] (Some [h]) = Inr st" and ps: "ps = finish st"
    by (auto simp: polygon_groups_finish split: sum.splits)
  from group_rings_keeps_open[OF st] ps obtain q qs where "ps = (h # q) # qs" by auto
  with assms(3) show ?thesis
    by (auto simp: polygon_geometry_def)
qed

theorem leading_hole_opens_polygon_witness:
  "signed_area unit_square_ccw = Inr (- 1)
   \<and> polygon_groups [unit_square_ccw, unit_square_cw] = Inr [[unit_square_ccw], [unit_square_cw]]
   \<and> polygon_geometry [unit_square_ccw, unit_square_cw]
       = Inr (MultiPolygon [[unit_square_ccw], [unit_square_cw]])"
proof -
  have h: "signed_area unit_square_ccw = Inr (- 1)" by code_simp
  have g: "polygon_groups [unit_square_ccw, unit_square_cw] = Inr [[unit_square_ccw], [unit_square_cw]]"
    by code_simp
  from leading_hole_opens_polygon[OF h _ g] h g show ?thesis by auto
qed

subsection \<open>Features, layers and tiles\<close>

record feature =
  f_geometry :: geometry
  f_properties :: "(pystr \<times> mvalue) list"

record layer =
  l_extent :: int
  l_features :: "feature list"

text \<open>
  The field loop of \<^verbatim>\<open>_decode_feature\<close> over the three variables \<^verbatim>\<open>geom_type\<close>,
  \<^verbatim>\<open>geom_data\<close> and \<^verbatim>\<open>tags_raw\<close>; the body cannot fail.
\<close>

fun feature_fields ::
  "pfield list \<Rightarrow> int \<times> byte list \<times> byte list \<Rightarrow> int \<times> byte list \<times> byte list" where
  "feature_fields [] st = st"
| "feature_fields (f # fs) (geom_type, geom_data, tags_raw) =
     feature_fields fs
       (case f of
          FVarint field val \<Rightarrow>
            if field = 3 then (val, geom_data, tags_raw) else (geom_type, geom_data, tags_raw)
        | FBytes field val \<Rightarrow>
            if field = 4 then (geom_type, val, tags_raw)
            else if field = 2 then (geom_type, geom_data, val)
            else (geom_type, geom_data, tags_raw)
        | _ \<Rightarrow> (geom_type, geom_data, tags_raw))"

text \<open>
  \<^verbatim>\<open>for i in range(0, len(tag_indices) - 1, 2)\<close>: the indices two at a time, an odd one left
  over ignored. The indices are decoded varints, hence never negative.
\<close>

fun tag_pairs ::
  "int list \<Rightarrow> pystr list \<Rightarrow> mvalue list \<Rightarrow> (pystr \<times> mvalue) list \<Rightarrow> (pystr \<times> mvalue) list" where
  "tag_pairs (ki # vi # rest) keys values properties =
     tag_pairs rest keys values
       (if ki < int (length keys) \<and> vi < int (length values)
        then AList.update (keys ! nat ki) (values ! nat vi) properties
        else properties)"
| "tag_pairs _ keys values properties = properties"

definition decode_feature ::
  "byte list \<Rightarrow> pystr list \<Rightarrow> mvalue list \<Rightarrow> int \<Rightarrow> bool \<Rightarrow> error + feature" where
  "decode_feature data keys values extent y_coord_down =
     (case parse_message data of
        (fs, Some e) \<Rightarrow> Inl e
      | (fs, None) \<Rightarrow>
          (case feature_fields fs (1, [], []) of
             (geom_type, geom_data, tags_raw) \<Rightarrow>
               (case (if tags_raw \<noteq> [] then decode_packed_uint32 tags_raw else Inr []) of
                  Inl e \<Rightarrow> Inl e
                | Inr tag_indices \<Rightarrow>
                    (case decode_geometry geom_data geom_type extent y_coord_down of
                       Inl e \<Rightarrow> Inl e
                     | Inr g \<Rightarrow>
                         Inr \<lparr>f_geometry = g,
                              f_properties = tag_pairs tag_indices keys values []\<rparr>))))"

text \<open>The local variables of \<^verbatim>\<open>_decode_layer\<close> and its field loop, which fails when a value does.\<close>

record layer_vars =
  v_name :: pystr
  v_keys :: "pystr list"
  v_values :: "mvalue list"
  v_extent :: int
  v_feature_datas :: "byte list list"

fun layer_fields :: "pfield list \<Rightarrow> layer_vars \<Rightarrow> error + layer_vars" where
  "layer_fields [] vs = Inr vs"
| "layer_fields (f # fs) vs =
     (case f of
        FBytes field val \<Rightarrow>
          if field = 1 then layer_fields fs (vs\<lparr>v_name := utf8_decode_replace val\<rparr>)
          else if field = 3 then layer_fields fs (vs\<lparr>v_keys := v_keys vs @ [utf8_decode_replace val]\<rparr>)
          else if field = 4 then
            (case decode_value val of
               Inl e \<Rightarrow> Inl e
             | Inr v \<Rightarrow> layer_fields fs (vs\<lparr>v_values := v_values vs @ [v]\<rparr>))
          else if field = 2 then layer_fields fs (vs\<lparr>v_feature_datas := v_feature_datas vs @ [val]\<rparr>)
          else layer_fields fs vs
      | FVarint field val \<Rightarrow>
          if field = 5 then layer_fields fs (vs\<lparr>v_extent := val\<rparr>) else layer_fields fs vs
      | _ \<Rightarrow> layer_fields fs vs)"

text \<open>The list comprehension over \<^verbatim>\<open>feature_datas\<close>: the first feature that raises ends it.\<close>

fun decode_features ::
  "byte list list \<Rightarrow> pystr list \<Rightarrow> mvalue list \<Rightarrow> int \<Rightarrow> bool \<Rightarrow> error + feature list" where
  "decode_features [] keys values extent y_coord_down = Inr []"
| "decode_features (fd # fds) keys values extent y_coord_down =
     (case decode_feature fd keys values extent y_coord_down of
        Inl e \<Rightarrow> Inl e
      | Inr ft \<Rightarrow>
          (case decode_features fds keys values extent y_coord_down of
             Inl e \<Rightarrow> Inl e
           | Inr fts \<Rightarrow> Inr (ft # fts)))"

definition decode_layer :: "byte list \<Rightarrow> bool \<Rightarrow> error + (pystr \<times> layer)" where
  "decode_layer data y_coord_down =
     (case parse_message data of
        (fs, ending) \<Rightarrow>
          (case layer_fields fs
                  \<lparr>v_name = [], v_keys = [], v_values = [], v_extent = 4096, v_feature_datas = []\<rparr> of
             Inl e \<Rightarrow> Inl e
           | Inr vs \<Rightarrow>
               (case ending of
                  Some e \<Rightarrow> Inl e
                | None \<Rightarrow>
                    (case decode_features (v_feature_datas vs) (v_keys vs) (v_values vs)
                            (v_extent vs) y_coord_down of
                       Inl e \<Rightarrow> Inl e
                     | Inr features \<Rightarrow>
                         Inr (v_name vs, \<lparr>l_extent = v_extent vs, l_features = features\<rparr>)))))"

text \<open>The field loop of \<^verbatim>\<open>decode\<close> over \<^verbatim>\<open>result\<close>, and \<^verbatim>\<open>decode(tile_bytes, default_options)\<close>.\<close>

fun tile_fields ::
  "pfield list \<Rightarrow> bool \<Rightarrow> (pystr \<times> layer) list \<Rightarrow> error + (pystr \<times> layer) list" where
  "tile_fields [] y_coord_down result = Inr result"
| "tile_fields (f # fs) y_coord_down result =
     (case f of
        FBytes field val \<Rightarrow>
          if field = 3 then
            (case decode_layer val y_coord_down of
               Inl e \<Rightarrow> Inl e
             | Inr (name, layer) \<Rightarrow>
                 tile_fields fs y_coord_down
                   (if name \<noteq> [] then AList.update name layer result else result))
          else tile_fields fs y_coord_down result
      | _ \<Rightarrow> tile_fields fs y_coord_down result)"

definition decode :: "byte list \<Rightarrow> bool \<Rightarrow> error + (pystr \<times> layer) list" where
  "decode tile_bytes y_coord_down =
     (case parse_message tile_bytes of
        (fs, ending) \<Rightarrow>
          (case tile_fields fs y_coord_down [] of
             Inl e \<Rightarrow> Inl e
           | Inr result \<Rightarrow> (case ending of Some e \<Rightarrow> Inl e | None \<Rightarrow> Inr result)))"

text \<open>
  \<^verbatim>\<open>decode_tile(tile_bytes, z, x, y)\<close> of src/maps/tiles.py, which does not use its tile
  coordinates: the \<^verbatim>\<open>try\<close> around \<^verbatim>\<open>mvt_decoder.decode\<close> is the only handler on the path.
\<close>

definition decode_tile :: "byte list \<Rightarrow> (pystr \<times> layer) list" where
  "decode_tile tile_bytes =
     (if tile_bytes = [] then []
      else case decode tile_bytes True of Inl e \<Rightarrow> [] | Inr decoded \<Rightarrow> decoded)"

subsection \<open>Error propagation and layer names\<close>

text \<open>
  Fixtures: a Point feature at \<open>(1, 1)\<close>, a feature whose type field is a truncated varint,
  layers named \<open>a\<close> and \<open>b\<close>, a layer without a name, and tiles made of them.
\<close>

definition point_feature :: "byte list" where
  "point_feature = [0x18, 0x01, 0x22, 0x03, 0x09, 0x02, 0x02]"

definition truncated_feature :: "byte list" where
  "truncated_feature = [0x18, 0x80]"

definition layer_a :: "byte list" where
  "layer_a = [0x0A, 0x01, 0x61] @ [0x12, 0x07] @ point_feature @ [0x12, 0x02] @ truncated_feature"

definition layer_a_sound :: "byte list" where
  "layer_a_sound = [0x0A, 0x01, 0x61] @ [0x12, 0x07] @ point_feature"

definition layer_b :: "byte list" where
  "layer_b = [0x0A, 0x01, 0x62] @ [0x12, 0x07] @ point_feature"

definition nameless_layer :: "byte list" where
  "nameless_layer = [0x12, 0x07] @ point_feature"

definition tile_ab :: "byte list" where
  "tile_ab = [0x1A, 0x10] @ layer_a @ [0x1A, 0x0C] @ layer_b"

definition tile_ab_sound :: "byte list" where
  "tile_ab_sound = [0x1A, 0x0C] @ layer_a_sound @ [0x1A, 0x0C] @ layer_b"

definition tile_nameless :: "byte list" where
  "tile_nameless = [0x1A, 0x09] @ nameless_layer @ [0x1A, 0x0C] @ layer_b"


lemma decode_geometry_y_down:
  "decode_geometry gd gt ext True = decode_geometry gd gt ext' True"
  by (simp add: decode_geometry_def Let_def split: sum.splits)

lemma decode_feature_failure_tables:
  assumes "decode_feature fd ks vs ext True = Inl e"
  shows "decode_feature fd ks' vs' ext' True = Inl e"
  using assms decode_geometry_y_down[of _ _ ext ext']
  by (auto simp: decode_feature_def split: prod.splits option.splits sum.splits if_splits)

lemma decode_features_failure:
  assumes "fd \<in> set fds" and "decode_feature fd ks vs ext ycd = Inl e"
  shows "\<exists>e'. decode_features fds ks vs ext ycd = Inl e'"
  using assms
  by (induction fds) (auto split: sum.splits)

lemma layer_fields_feature_datas:
  assumes "layer_fields fs vars = Inr vars'"
  shows "set (v_feature_datas vars) \<union> {fd. FBytes 2 fd \<in> set fs} \<subseteq> set (v_feature_datas vars')"
  using assms
proof (induction fs arbitrary: vars)
  case Nil
  then show ?case by simp
next
  case (Cons f fs)
  show ?case
  proof (cases f)
    case (FVarint n v)
    with Cons.prems Cons.IH[of "vars\<lparr>v_extent := v\<rparr>"] Cons.IH[of vars]
    show ?thesis by (auto split: if_splits)
  next
    case (FBytes n val)
    with Cons.prems
      Cons.IH[of "vars\<lparr>v_name := utf8_decode_replace val\<rparr>"]
      Cons.IH[of "vars\<lparr>v_keys := v_keys vars @ [utf8_decode_replace val]\<rparr>"]
      Cons.IH[of "vars\<lparr>v_feature_datas := v_feature_datas vars @ [val]\<rparr>"]
      Cons.IH[of vars]
    show ?thesis
      by (auto split: if_splits sum.splits dest!: Cons.IH)
  next
    case (FFixed32 n bs)
    with Cons.prems Cons.IH[of vars] show ?thesis by auto
  next
    case (FFixed64 n bs)
    with Cons.prems Cons.IH[of vars] show ?thesis by auto
  qed
qed

lemma decode_layer_failure:
  assumes "FBytes 2 fdata \<in> set (fst (parse_message ldata))"
    and "decode_feature fdata ks vs ext True = Inl e"
  shows "\<exists>e'. decode_layer ldata True = Inl e'"
proof (cases "parse_message ldata")
  case (Pair fs ending)
  let ?init = "\<lparr>v_name = [], v_keys = [], v_values = [], v_extent = 4096, v_feature_datas = []\<rparr>"
  show ?thesis
  proof (cases "layer_fields fs ?init")
    case (Inl e1)
    with Pair show ?thesis by (simp add: decode_layer_def)
  next
    case (Inr vars)
    from layer_fields_feature_datas[OF Inr] assms(1) Pair
    have mem: "fdata \<in> set (v_feature_datas vars)" by auto
    from decode_feature_failure_tables[OF assms(2)]
    have "decode_feature fdata (v_keys vars) (v_values vars) (v_extent vars) True = Inl e" .
    from decode_features_failure[OF mem this]
    obtain e' where "decode_features (v_feature_datas vars) (v_keys vars) (v_values vars)
                       (v_extent vars) True = Inl e'" by blast
    with Pair Inr show ?thesis
      by (cases ending) (simp_all add: decode_layer_def)
  qed
qed

lemma tile_fields_failure:
  assumes "FBytes 3 ldata \<in> set fs" and "decode_layer ldata ycd = Inl e"
  shows "\<exists>e'. tile_fields fs ycd result = Inl e'"
  using assms
proof (induction fs arbitrary: result)
  case Nil
  then show ?case by simp
next
  case (Cons f fs)
  then show ?case
    by (cases f) (auto split: sum.splits)
qed

text \<open>
  Claim C1, as amended. The decoder has no handler around a single feature: when any feature
  of any layer message of the tile fails to decode, \<^verbatim>\<open>_decode_layer\<close> fails, \<^verbatim>\<open>decode\<close>
  fails, and \<^verbatim>\<open>decode_tile\<close>, the only place that catches, returns the empty layer map.
\<close>

theorem feature_failure_empties_tile:
  assumes "FBytes 3 ldata \<in> set (fst (parse_message tile_bytes))"
    and "FBytes 2 fdata \<in> set (fst (parse_message ldata))"
    and "decode_feature fdata ks vs ext True = Inl e"
  shows "(\<exists>e'. decode_layer ldata True = Inl e') \<and> (\<exists>e'. decode tile_bytes True = Inl e')
         \<and> decode_tile tile_bytes = []"
proof -
  from decode_layer_failure[OF assms(2,3)] obtain e1 where e1: "decode_layer ldata True = Inl e1"
    by blast
  obtain fs ending where p: "parse_message tile_bytes = (fs, ending)" by (cases "parse_message tile_bytes")
  with assms(1) have "FBytes 3 ldata \<in> set fs" by simp
  from tile_fields_failure[OF this e1] obtain e2 where "tile_fields fs True [] = Inl e2" by blast
  with p have "decode tile_bytes True = Inl e2" by (simp add: decode_def)
  with e1 show ?thesis by (simp add: decode_tile_def)
qed

theorem feature_failure_empties_tile_witness:
  "FBytes 3 layer_a \<in> set (fst (parse_message tile_ab))
   \<and> FBytes 2 truncated_feature \<in> set (fst (parse_message layer_a))
   \<and> decode_feature truncated_feature [] [] 4096 True = Inl TruncatedVarint
   \<and> decode_tile tile_ab = []"
proof -
  have a: "FBytes 3 layer_a \<in> set (fst (parse_message tile_ab))" by code_simp
  have b: "FBytes 2 truncated_feature \<in> set (fst (parse_message layer_a))" by code_simp
  have c: "decode_feature truncated_feature [] [] 4096 True = Inl TruncatedVarint" by code_simp
  from feature_failure_empties_tile[OF a b c] a b c show ?thesis by simp
qed

text \<open>
  Claim C1 as stated fails on tile \<open>tile_ab\<close>: layer \<open>a\<close> holds a sound feature and a
  truncated one, layer \<open>b\<close> is sound, and without the truncated feature both layers decode;
  with it the decoded tile is empty, so neither the sound feature of \<open>a\<close> nor layer \<open>b\<close>
  appears.
\<close>

theorem feature_failure_not_contained_counterexample:
  "decode_feature truncated_feature [] [] 4096 True = Inl TruncatedVarint
   \<and> decode_feature point_feature [] [] 4096 True
       = Inr \<lparr>f_geometry = Point (1, 1), f_properties = []\<rparr>
   \<and> decode_layer layer_b True
       = Inr ([98], \<lparr>l_extent = 4096,
                      l_features = [\<lparr>f_geometry = Point (1, 1), f_properties = []\<rparr>]\<rparr>)
   \<and> fst (parse_message tile_ab) = [FBytes 3 layer_a, FBytes 3 layer_b]
   \<and> fst (parse_message layer_a) = [FBytes 1 [0x61], FBytes 2 point_feature, FBytes 2 truncated_feature]
   \<and> decode_tile tile_ab_sound
       = [([97], \<lparr>l_extent = 4096,
                   l_features = [\<lparr>f_geometry = Point (1, 1), f_properties = []\<rparr>]\<rparr>),
          ([98], \<lparr>l_extent = 4096,
                   l_features = [\<lparr>f_geometry = Point (1, 1), f_properties = []\<rparr>]\<rparr>)]
   \<and> decode_tile tile_ab = []"
  by code_simp

lemma tile_fields_keys:
  assumes "tile_fields fs ycd result = Inr r" and "[] \<notin> fst ` set result"
  shows "[] \<notin> fst ` set r"
  using assms
proof (induction fs arbitrary: result)
  case Nil
  then show ?case by simp
next
  case (Cons f fs)
  show ?case
  proof (cases f)
    case (FBytes n val)
    show ?thesis
    proof (cases "n = 3")
      case True
      with FBytes Cons.prems obtain name lay where
        l: "decode_layer val ycd = Inr (name, lay)"
        and t: "tile_fields fs ycd (if name \<noteq> [] then AList.update name lay result else result) = Inr r"
        by (auto split: sum.splits)
      have "[] \<notin> fst ` set (if name \<noteq> [] then AList.update name lay result else result)"
        using Cons.prems(2) by (auto simp: dom_update)
      from Cons.IH[OF t this] show ?thesis .
    next
      case False
      with FBytes Cons.prems Cons.IH[of result] show ?thesis by simp
    qed
  next
    case (FVarint n v)
    with Cons.prems Cons.IH[of result] show ?thesis by simp
  next
    case (FFixed32 n bs)
    with Cons.prems Cons.IH[of result] show ?thesis by simp
  next
    case (FFixed64 n bs)
    with Cons.prems Cons.IH[of result] show ?thesis by simp
  qed
qed

lemma decode_keys:
  assumes "decode tile_bytes ycd = Inr result"
  shows "[] \<notin> fst ` set result"
proof -
  obtain fs ending where p: "parse_message tile_bytes = (fs, ending)" by (cases "parse_message tile_bytes")
  with assms have "tile_fields fs ycd [] = Inr result"
    by (auto simp: decode_def split: sum.splits option.splits)
  from tile_fields_keys[OF this] show ?thesis by simp
qed

text \<open>
  Claim C9. The layer mapping returned by \<^verbatim>\<open>decode\<close> (and so by \<^verbatim>\<open>decode_tile\<close>) never has
  the empty string as a key: a Layer message whose name is absent or decodes to the empty
  string leaves \<^verbatim>\<open>result\<close> as it was, even though the layer itself decoded.
\<close>

theorem unnamed_layer_dropped:
  "[] \<notin> fst ` set (decode_tile tile_bytes)
   \<and> (\<forall>result. decode tile_bytes ycd = Inr result \<longrightarrow> [] \<notin> fst ` set result)
   \<and> (\<forall>lay. decode_layer val ycd = Inr ([], lay) \<longrightarrow>
         tile_fields (FBytes 3 val # fs) ycd acc = tile_fields fs ycd acc)"
proof -
  have "[] \<notin> fst ` set (decode_tile tile_bytes)"
    using decode_keys[of tile_bytes True]
    by (cases "decode tile_bytes True") (auto simp: decode_tile_def)
  then show ?thesis using decode_keys[of tile_bytes ycd] by auto
qed

theorem unnamed_layer_dropped_witness:
  "decode_layer nameless_layer True
       = Inr ([], \<lparr>l_extent = 4096,
                    l_features = [\<lparr>f_geometry = Point (1, 1), f_properties = []\<rparr>]\<rparr>)
   \<and> decode tile_nameless True
       = Inr [([98], \<lparr>l_extent = 4096,
                       l_features = [\<lparr>f_geometry = Point (1, 1), f_properties = []\<rparr>]\<rparr>)]
   \<and> [] \<notin> fst ` set (decode_tile tile_nameless)
   \<and> tile_fields (FBytes 3 nameless_layer # [FBytes 3 layer_b]) True []
       = tile_fields [FBytes 3 layer_b] True []"
proof -
  have a: "decode_layer nameless_layer True
       = Inr ([], \<lparr>l_extent = 4096,
                    l_features = [\<lparr>f_geometry = Point (1, 1), f_properties = []\<rparr>]\<rparr>)"
    by code_simp
  have b: "decode tile_nameless True
       = Inr [([98], \<lparr>l_extent = 4096,
                       l_features = [\<lparr>f_geometry = Point (1, 1), f_properties = []\<rparr>]\<rparr>)]"
    by code_simp
  from unnamed_layer_dropped[of tile_nameless True nameless_layer "[FBytes 3 layer_b]" "[]"] a b
  show ?thesis by simp
qed

section \<open>The in-memory tile cache (src/maps/ascii_map.py)\<close>

text \<open>
  The module-level \<^verbatim>\<open>OrderedDict\<close> \<^verbatim>\<open>_tile_cache\<close> is passed explicitly: an association
  list with distinct keys, oldest entry first. \<^verbatim>\<open>move_to_end\<close> and \<^verbatim>\<open>popitem\<close> raise
  \<^verbatim>\<open>KeyError\<close> on a missing key or an empty dictionary, which is the value \<open>None\<close> here.
  \<^verbatim>\<open>tiles.fetch_tile\<close> reads the disk and the network; it is the parameter \<open>fetch_tile\<close>.
\<close>

type_synonym tile_key = "int \<times> int \<times> int"
type_synonym decoded_tile = "(pystr \<times> layer) list"
type_synonym tile_cache = "(tile_key \<times> decoded_tile) list"

definition MAX_TILE_CACHE :: nat where
  "MAX_TILE_CACHE = 512"

definition move_to_end :: "tile_key \<Rightarrow> tile_cache \<Rightarrow> tile_cache option" where
  "move_to_end key cache =
     (case map_of cache key of
        None \<Rightarrow> None
      | Some v \<Rightarrow> Some (filter (\<lambda>kv. fst kv \<noteq> key) cache @ [(key, v)]))"

definition popitem_first :: "tile_cache \<Rightarrow> tile_cache option" where
  "popitem_first cache = (case cache of [] \<Rightarrow> None | kv # rest \<Rightarrow> Some rest)"

definition cache_put :: "tile_key \<Rightarrow> decoded_tile \<Rightarrow> tile_cache \<Rightarrow> tile_cache option" where
  "cache_put key val cache =
     (case move_to_end key (AList.update key val cache) of
        None \<Rightarrow> None
      | Some c \<Rightarrow> if length c > MAX_TILE_CACHE then popitem_first c else Some c)"

definition tile_cache_size :: "tile_cache \<Rightarrow> nat" where
  "tile_cache_size cache = length cache"

definition get_decoded_tile ::
  "(tile_key \<Rightarrow> byte list option) \<Rightarrow> tile_key \<Rightarrow> tile_cache \<Rightarrow> (decoded_tile \<times> tile_cache) option" where
  "get_decoded_tile fetch_tile key cache =
     (if key \<in> fst ` set cache then
        (case move_to_end key cache of
           None \<Rightarrow> None
         | Some c \<Rightarrow> (case map_of c key of None \<Rightarrow> None | Some v \<Rightarrow> Some (v, c)))
      else
        let raw = fetch_tile key;
            decoded = (case raw of None \<Rightarrow> [] | Some bs \<Rightarrow> if bs \<noteq> [] then decode_tile bs else [])
        in (case cache_put key decoded cache of
              None \<Rightarrow> None
            | Some c \<Rightarrow> Some (decoded, c)))"

text \<open>A run of calls \<^verbatim>\<open>get_decoded_tile(z, x, y)\<close>, one per key, in order.\<close>

fun get_tiles :: "(tile_key \<Rightarrow> byte list option) \<Rightarrow> tile_key list \<Rightarrow> tile_cache \<Rightarrow> tile_cache option" where
  "get_tiles fetch_tile [] cache = Some cache"
| "get_tiles fetch_tile (key # keys) cache =
     (case get_decoded_tile fetch_tile key cache of
        None \<Rightarrow> None
      | Some (decoded, cache') \<Rightarrow> get_tiles fetch_tile keys cache')"

text \<open>
  The specification's side: \<^term>\<open>remdups ks\<close> keeps the last occurrence of every key, so it
  lists the keys ever used by increasing time of last use; the \<open>n\<close> most recently used
  keys are its last \<open>n\<close> elements.
\<close>

definition most_recent :: "nat \<Rightarrow> 'a list \<Rightarrow> 'a list" where
  "most_recent n ks = drop (length (remdups ks) - n) (remdups ks)"

lemma remdups_snoc: "remdups (xs @ [x]) = removeAll x (remdups xs) @ [x]"
  by (induction xs) (auto)

lemma length_removeAll_distinct:
  "distinct xs \<Longrightarrow> x \<in> set xs \<Longrightarrow> length (removeAll x xs) = length xs - 1"
  by (simp add: distinct_remove1_removeAll[symmetric] length_remove1)

lemma keys_step:
  assumes d: "distinct r" and n: "0 < n"
  shows "drop (length (removeAll k r @ [k]) - n) (removeAll k r @ [k]) =
     (let K = drop (length r - n) r in
      if k \<in> set K then removeAll k K @ [k]
      else if length (K @ [k]) > n then tl (K @ [k]) else K @ [k])"
proof -
  define A where "A = take (length r - n) r"
  define K where "K = drop (length r - n) r"
  have r: "r = A @ K" by (simp add: A_def K_def)
  have lenA: "length A = length r - n" by (simp add: A_def)
  have lenK: "length K = min n (length r)" by (auto simp: K_def)
  from d r have dAK: "distinct A" "distinct K" "set A \<inter> set K = {}" by (metis distinct_append)+
  show ?thesis
  proof (cases "k \<in> set K")
    case True
    then have kA: "k \<notin> set A" using dAK by auto
    have "removeAll k r = A @ removeAll k K" using kA r by (simp add: removeAll_id)
    moreover have "length (removeAll k K) = length K - 1"
      using True dAK(2) by (simp add: length_removeAll_distinct) 
    ultimately show ?thesis
      using True lenA lenK n unfolding K_def[symmetric] Let_def
      by (cases "length r \<ge> n") (auto simp: min_def)
  next
    case False
    note kK = False
    show ?thesis
    proof (cases "k \<in> set A")
      case True
      then have "A \<noteq> []" by auto
      then have "length A > 0" by simp
      with lenA have big: "length r > n" by simp
      have "removeAll k r = removeAll k A @ K" using kK r by (simp add: removeAll_id)
      moreover have "length (removeAll k A) = length A - 1"
        using True dAK(1) by (simp add: length_removeAll_distinct)
      ultimately show ?thesis
        using kK lenA lenK n big unfolding K_def[symmetric] Let_def
        by (cases K) (auto simp: min_def)
    next
      case False
      then have "removeAll k r = A @ K" using kK r by (simp add: removeAll_id)
      then show ?thesis
        using kK lenA lenK n unfolding K_def[symmetric] Let_def
        by (cases K) (auto simp: min_def split: if_splits)
    qed
  qed
qed


lemma update_fresh: "k \<notin> fst ` set al \<Longrightarrow> AList.update k v al = al @ [(k, v)]"
  by (induction al) auto

lemma filter_other_keys: "k \<notin> fst ` set al \<Longrightarrow> filter (\<lambda>kv. fst kv \<noteq> k) al = al"
  by (induction al) auto

lemma map_fst_filter_key:
  "map fst (filter (\<lambda>kv. fst kv \<noteq> k) al) = removeAll k (map fst al)"
  by (induction al) auto

lemma map_of_snoc_fresh:
  "k \<notin> fst ` set al \<Longrightarrow> map_of (al @ [(k, v)]) k = Some v"
  by (induction al) auto

lemma get_decoded_tile_hit:
  assumes "key \<in> fst ` set cache"
  shows "\<exists>v. map_of cache key = Some v
     \<and> get_decoded_tile fetch_tile key cache
         = Some (v, filter (\<lambda>kv. fst kv \<noteq> key) cache @ [(key, v)])"
proof -
  from assms obtain v where v: "map_of cache key = Some v"
    by (metis domD dom_map_of_conv_image_fst)
  have "key \<notin> fst ` set (filter (\<lambda>kv. fst kv \<noteq> key) cache)" by auto
  from map_of_snoc_fresh[OF this]
  have "map_of (filter (\<lambda>kv. fst kv \<noteq> key) cache @ [(key, v)]) key = Some v" .
  with assms v show ?thesis
    by (simp add: get_decoded_tile_def move_to_end_def)
qed

lemma cache_put_fresh:
  assumes "key \<notin> fst ` set cache"
  shows "cache_put key val cache =
     Some (if length cache \<ge> MAX_TILE_CACHE then tl (cache @ [(key, val)]) else cache @ [(key, val)])"
proof -
  have m: "move_to_end key (cache @ [(key, val)]) = Some (cache @ [(key, val)])"
    unfolding move_to_end_def
    using assms by (simp only: map_of_snoc_fresh[OF assms] option.case filter_append filter_other_keys[OF assms]) simp
  show ?thesis
    using assms m
    by (cases cache) (auto simp: cache_put_def update_fresh popitem_first_def MAX_TILE_CACHE_def)
qed

lemma get_decoded_tile_keys:
  assumes "distinct (map fst cache)"
  shows "\<exists>v c. get_decoded_tile fetch_tile key cache = Some (v, c)
     \<and> map fst c =
         (let K = map fst cache in
          if key \<in> set K then removeAll key K @ [key]
          else if length (K @ [key]) > MAX_TILE_CACHE then tl (K @ [key]) else K @ [key])"
proof (cases "key \<in> fst ` set cache")
  case True
  from get_decoded_tile_hit[OF True, of fetch_tile] True show ?thesis
    by (auto simp: map_fst_filter_key Let_def)
next
  case False
  then have "get_decoded_tile fetch_tile key cache =
     (let raw = fetch_tile key;
          decoded = (case raw of None \<Rightarrow> [] | Some bs \<Rightarrow> if bs \<noteq> [] then decode_tile bs else [])
      in Some (decoded, if length cache \<ge> MAX_TILE_CACHE then tl (cache @ [(key, decoded)])
                        else cache @ [(key, decoded)]))"
    by (simp add: get_decoded_tile_def cache_put_fresh Let_def)
  with False show ?thesis
    by (cases cache) (auto simp: Let_def MAX_TILE_CACHE_def)
qed

lemma get_tiles_append:
  "get_tiles fetch_tile (ks @ ks') cache =
     (case get_tiles fetch_tile ks cache of None \<Rightarrow> None | Some c \<Rightarrow> get_tiles fetch_tile ks' c)"
  by (induction ks arbitrary: cache) (auto split: option.splits)

lemma distinct_most_recent: "distinct (most_recent n ks)"
  by (simp add: most_recent_def)

lemma get_tiles_keys:
  "\<exists>cache. get_tiles fetch_tile ks [] = Some cache
     \<and> map fst cache = most_recent MAX_TILE_CACHE ks"
proof (induction ks rule: rev_induct)
  case Nil
  show ?case by (simp add: most_recent_def)
next
  case (snoc k ks)
  then obtain cache where c: "get_tiles fetch_tile ks [] = Some cache"
    and keys: "map fst cache = most_recent MAX_TILE_CACHE ks" by blast
  have d: "distinct (map fst cache)" by (simp add: keys distinct_most_recent)
  from get_decoded_tile_keys[OF d, of fetch_tile k] obtain v c' where
    g: "get_decoded_tile fetch_tile k cache = Some (v, c')"
    and k': "map fst c' =
         (let K = map fst cache in
          if k \<in> set K then removeAll k K @ [k]
          else if length (K @ [k]) > MAX_TILE_CACHE then tl (K @ [k]) else K @ [k])"
    by blast
  have pos: "0 < MAX_TILE_CACHE" by (simp add: MAX_TILE_CACHE_def)
  have "most_recent MAX_TILE_CACHE (ks @ [k]) = map fst c'"
    unfolding k' keys
    using keys_step[OF distinct_remdups[of ks] pos, of k]
    by (simp add: most_recent_def remdups_snoc)
  with c g show ?case
    by (simp add: get_tiles_append)
qed

definition keys_513 :: "tile_key list" where
  "keys_513 = map (\<lambda>i. (0, int i, 0)) [0..<513]"

text \<open>
  Claim C7. From the empty cache, any run of calls to \<^verbatim>\<open>get_decoded_tile\<close> returns (no
  \<^verbatim>\<open>KeyError\<close>) and leaves exactly the 512 most recently used keys, in order of last use,
  the key of the last call last (every get, hit or miss, renews the key; what is evicted is
  the least recently used entry). After \<open>N > 512\<close> distinct keys the size is 512 and the
  keys are the last 512 requested.
\<close>

theorem lru_keeps_most_recent:
  "\<exists>cache. get_tiles fetch_tile ks [] = Some cache
     \<and> map fst cache = most_recent MAX_TILE_CACHE ks
     \<and> (ks \<noteq> [] \<longrightarrow> last (map fst cache) = last ks)
     \<and> (distinct ks \<and> length ks > 512 \<longrightarrow>
          tile_cache_size cache = 512 \<and> map fst cache = drop (length ks - 512) ks)"
proof -
  from get_tiles_keys[of fetch_tile ks] obtain cache where
    c: "get_tiles fetch_tile ks [] = Some cache"
    and keys: "map fst cache = most_recent MAX_TILE_CACHE ks" by blast
  have l: "ks \<noteq> [] \<longrightarrow> last (map fst cache) = last ks"
  proof
    assume "ks \<noteq> []"
    then obtain ks' k where ks: "ks = ks' @ [k]" by (metis rev_exhaust)
    have "most_recent MAX_TILE_CACHE ks \<noteq> []"
      by (auto simp: most_recent_def ks remdups_snoc MAX_TILE_CACHE_def)
    then have "last (most_recent MAX_TILE_CACHE ks) = last (remdups ks)"
      by (simp add: most_recent_def last_drop)
    then show "last (map fst cache) = last ks"
      by (simp add: keys ks remdups_snoc)
  qed
  have "tile_cache_size cache = 512 \<and> map fst cache = drop (length ks - 512) ks"
    if "distinct ks" "length ks > 512"
  proof -
    from that have "most_recent MAX_TILE_CACHE ks = drop (length ks - 512) ks"
      by (simp add: most_recent_def MAX_TILE_CACHE_def distinct_remdups_id)
    moreover have "length cache = length (map fst cache)" by simp
    ultimately show ?thesis using keys that by (simp add: tile_cache_size_def del: length_map)
  qed
  with c keys l show ?thesis by blast
qed


theorem lru_keeps_most_recent_witness:
  "distinct keys_513 \<and> length keys_513 > 512
   \<and> (\<exists>cache. get_tiles (\<lambda>k. None) keys_513 [] = Some cache
         \<and> tile_cache_size cache = 512
         \<and> map fst cache = drop 1 keys_513
         \<and> last (map fst cache) = (0, 512, 0))
   \<and> get_tiles (\<lambda>k. None) [(0, 0, 0), (0, 1, 0), (0, 0, 0)] []
       = Some [((0, 1, 0), []), ((0, 0, 0), [])]"
proof -
  have d: "distinct keys_513"
    by (simp add: keys_513_def distinct_map inj_on_def)
  have l: "length keys_513 = 513" by (simp add: keys_513_def)
  have n: "keys_513 \<noteq> []" using l by auto
  have la: "last keys_513 = (0, 512, 0)"
    using n by (simp add: keys_513_def last_map)
  have s: "get_tiles (\<lambda>k. None) [(0, 0, 0), (0, 1, 0), (0, 0, 0)] []
       = Some [((0, 1, 0), []), ((0, 0, 0), [])]"
    by code_simp
  from lru_keeps_most_recent[of "\<lambda>k. None" keys_513] d l n la s show ?thesis
    by auto
qed

section \<open>Coordinates and the view (maps/coords.py, src/maps/ascii_map.py)\<close>

text \<open>
  Python floats are IEEE-754 doubles. A finite double is modelled by the real number it
  denotes, and every floating-point operation of the source returns its exact result
  rounded by the \<open>rnd\<close> of an arithmetic, given as a parameter: \<open>double_arith\<close> rounds to
  the nearest double, ties to even, and has \<^verbatim>\<open>math.pi\<close> as the double nearest to \<open>\<pi>\<close>;
  \<open>exact_arith\<close> does not round. Infinities, NaNs and overflow are not modelled, and
  \<^verbatim>\<open>math.sin\<close>, \<^verbatim>\<open>math.log\<close>, \<^verbatim>\<open>math.exp\<close>, \<^verbatim>\<open>math.atan\<close> are taken as correctly rounded,
  which every libm is at the arguments \<open>0\<close> and \<open>1\<close> evaluated below.
\<close>

record arith =
  rnd :: "real \<Rightarrow> real"
  math_pi :: real

text \<open>Rounding to the nearest double: 53 significant bits, exponent of the last bit at least -1074.\<close>

definition round_even :: "real \<Rightarrow> int" where
  "round_even y =
     (let f = \<lfloor>y\<rfloor>; d = y - of_int f
      in if d < 1 / 2 then f else if d > 1 / 2 then f + 1 else if even f then f else f + 1)"

definition ulp_exponent :: "real \<Rightarrow> int" where
  "ulp_exponent x = max (\<lfloor>log 2 \<bar>x\<bar>\<rfloor> - 52) (- 1074)"

definition double :: "real \<Rightarrow> real" where
  "double x =
     (if x = 0 then 0
      else of_int (round_even (x / 2 powi ulp_exponent x)) * 2 powi ulp_exponent x)"

definition double_arith :: arith where
  "double_arith = \<lparr>rnd = double, math_pi = 884279719003555 / 281474976710656\<rparr>"

definition exact_arith :: arith where
  "exact_arith = \<lparr>rnd = (\<lambda>x. x), math_pi = pi\<rparr>"

lemma double_eval:
  assumes "2 powi e \<le> \<bar>x\<bar>" and "\<bar>x\<bar> < 2 powi (e + 1)"
  shows "double x = of_int (round_even (x / 2 powi (max (e - 52) (- 1074)))) * 2 powi (max (e - 52) (- 1074))"
proof -
  have pos: "0 < \<bar>x\<bar>" using assms(1) by (smt (verit) zero_less_power_int)
  have "2 powr real_of_int (e + 1) = (2::real) powi (e + 1)"
    using powr_real_of_int'[of "2::real" "e + 1"] by simp
  then have "2 powr (real_of_int e + 1) = (2::real) powi (e + 1)" by simp
  with assms(2) have up: "\<bar>x\<bar> < 2 powr (real_of_int e + 1)" by simp
  have "2 powr real_of_int e = (2::real) powi e"
    using powr_real_of_int'[of "2::real" e] by simp
  with assms(1) have lo: "2 powr real_of_int e \<le> \<bar>x\<bar>" by simp
  have "\<lfloor>log 2 \<bar>x\<bar>\<rfloor> = e"
    using lo up pos by (simp add: floor_log_eq_powr_iff)
  with pos show ?thesis by (auto simp: double_def ulp_exponent_def)
qed


text \<open>
  \<^verbatim>\<open>x % m\<close> on floats, as CPython computes it: the exact C \<^verbatim>\<open>fmod\<close>, then one rounded
  addition of \<open>m\<close> when the signs differ. The divisor is never zero here.
\<close>

definition py_trunc :: "real \<Rightarrow> int" where
  "py_trunc x = (if x \<ge> 0 then \<lfloor>x\<rfloor> else \<lceil>x\<rceil>)"

definition fmod :: "real \<Rightarrow> real \<Rightarrow> real" where
  "fmod x m = x - m * of_int (py_trunc (x / m))"

definition float_mod :: "arith \<Rightarrow> real \<Rightarrow> real \<Rightarrow> real" where
  "float_mod A x m =
     (let r = fmod x m
      in if r \<noteq> 0 \<and> ((m < 0) \<noteq> (r < 0)) then rnd A (r + m) else r)"

definition TILE_SIZE :: int where "TILE_SIZE = 256"
definition MIN_ZOOM :: int where "MIN_ZOOM = 0"
definition MAX_ZOOM :: int where "MAX_ZOOM = 14"
definition WORLD_PX_PER_CELL_Y :: real where "WORLD_PX_PER_CELL_Y = 1"

definition MAX_LATITUDE :: "arith \<Rightarrow> real" where
  "MAX_LATITUDE A = rnd A 85.05112878"

text \<open>The functions of coords.py; the literal \<^verbatim>\<open>85.05112878\<close> is itself rounded to a double.\<close>

definition latlon_to_world_pixel :: "arith \<Rightarrow> real \<Rightarrow> real \<Rightarrow> int \<Rightarrow> int \<Rightarrow> real \<times> real" where
  "latlon_to_world_pixel A lat lon zoom tile_size =
     (let scale = of_int tile_size * 2 powi zoom;
          x = rnd A (rnd A (rnd A (lon + 180) / 360) * scale);
          lat = max (min lat (MAX_LATITUDE A)) (- MAX_LATITUDE A);
          sin_lat = rnd A (sin (rnd A (rnd A (lat * math_pi A) / 180)));
          y = rnd A (rnd A (1 / 2 -
                rnd A (rnd A (ln (rnd A (rnd A (1 + sin_lat) / rnd A (1 - sin_lat))))
                        / rnd A (4 * math_pi A))) * scale)
      in (x, y))"

definition world_pixel_to_latlon :: "arith \<Rightarrow> real \<Rightarrow> real \<Rightarrow> int \<Rightarrow> int \<Rightarrow> real \<times> real" where
  "world_pixel_to_latlon A x y zoom tile_size =
     (let scale = of_int tile_size * 2 powi zoom;
          lon = rnd A (rnd A (rnd A (x / scale) * 360) - 180);
          n = rnd A (math_pi A - rnd A (rnd A (rnd A (2 * math_pi A) * y) / scale));
          lat = rnd A (rnd A (180 / math_pi A)
                  * rnd A (arctan (rnd A (1 / 2 * rnd A (rnd A (exp n) - rnd A (exp (- n)))))))
      in (lat, lon))"

text \<open>
  \<^verbatim>\<open>normalize_view\<close> and \<^verbatim>\<open>pan\<close> of ascii_map.py. The zoom is an integer, on which
  \<^verbatim>\<open>int(zoom)\<close> is the identity.
\<close>

definition normalize_view ::
  "arith \<Rightarrow> real \<Rightarrow> real \<Rightarrow> int \<Rightarrow> real \<times> real \<times> int \<times> real \<times> real \<times> int" where
  "normalize_view A lat lon zoom =
     (let zoom = max MIN_ZOOM (min zoom MAX_ZOOM);
          (wx, wy) = latlon_to_world_pixel A lat lon zoom TILE_SIZE;
          world_size = TILE_SIZE * 2 ^ nat zoom;
          wx = float_mod A wx (of_int world_size);
          wy = max 0 (min wy (of_int (world_size - 1)));
          (lat, lon) = world_pixel_to_latlon A wx wy zoom TILE_SIZE
      in (lat, lon, zoom, wx, wy, world_size))"

definition pan :: "arith \<Rightarrow> real \<Rightarrow> real \<Rightarrow> int \<Rightarrow> string \<Rightarrow> real \<Rightarrow> real \<Rightarrow> real \<times> real" where
  "pan A lat lon zoom direction step_cells cell_aspect =
     (case normalize_view A lat lon zoom of
        (lat, lon, zoom, wx, wy, world_size) \<Rightarrow>
          let move_x = rnd A (step_cells * max (rnd A (1 / 5)) cell_aspect);
              move_y = rnd A (step_cells * WORLD_PX_PER_CELL_Y);
              wy1 = (if direction = ''up'' then rnd A (wy - move_y)
                     else if direction = ''down'' then rnd A (wy + move_y)
                     else wy);
              wx1 = (if direction = ''up'' \<or> direction = ''down'' then wx
                     else if direction = ''left'' then rnd A (wx - move_x)
                     else if direction = ''right'' then rnd A (wx + move_x)
                     else wx);
              wx2 = float_mod A wx1 (of_int world_size);
              wy2 = max 0 (min wy1 (of_int (world_size - 1)))
          in world_pixel_to_latlon A wx2 wy2 zoom TILE_SIZE)"


subsection \<open>Evaluating double arithmetic\<close>

lemmas dbl = round_even_def Let_def power_int_minus

lemma d_pi: "math_pi double_arith = 884279719003555 / 281474976710656" by (simp add: double_arith_def)
lemma d_rnd: "rnd double_arith = double" by (simp add: double_arith_def)

lemma double_0: "double 0 = 0" by (simp add: double_def)
lemma double_1: "double 1 = 1" by (simp add: double_eval[of 0] dbl)
lemma double_half: "double (1 / 2) = 1 / 2" by (simp add: double_eval[of "-1"] dbl)
lemma double_128: "double 128 = 128" by (simp add: double_eval[of 7] dbl)
lemma double_180: "double 180 = 180" by (simp add: double_eval[of 7] dbl)
lemma double_max_lat: "double (4252556439 / 50000000) = 23378676262271 / 274877906944"
  by (simp add: double_eval[of 6] dbl)
lemma double_4pi: "double (884279719003555 / 70368744177664) = 884279719003555 / 70368744177664"
  by (simp add: double_eval[of 3] dbl)


lemma latlon_equator:
  "latlon_to_world_pixel double_arith 0 lon 0 256
     = (double (double (double (lon + 180) / 360) * 256), 128)"
  unfolding latlon_to_world_pixel_def MAX_LATITUDE_def d_rnd d_pi Let_def
  by (simp add: double_0 double_1 double_half double_128 double_max_lat double_4pi)

lemma n_equator:
  "double (884279719003555 / 281474976710656
     - double (double (double (2 * (884279719003555 / 281474976710656)) * 128) / 256)) = 0"
  by (simp add: double_eval[of 1] double_eval[of 2] double_eval[of 9] double_0 dbl)

lemma latlon_inverse_equator:
  "world_pixel_to_latlon double_arith x 128 0 256
     = (0, double (double (double (x / 256) * 360) - 180))"
  unfolding world_pixel_to_latlon_def d_rnd d_pi Let_def
  using n_equator
  by (simp add: double_0 double_1)

lemma normalize_view_equator:
  "normalize_view double_arith 0 lon 0 =
     (let wx = float_mod double_arith (double (double (double (lon + 180) / 360) * 256)) 256
      in (0, double (double (double (wx / 256) * 360) - 180), 0, wx, 128, 256))"
  unfolding normalize_view_def
  by (simp add: MIN_ZOOM_def MAX_ZOOM_def TILE_SIZE_def latlon_equator latlon_inverse_equator Let_def)

lemma float_mod_in_range:
  assumes "0 < x" and "x < m"
  shows "float_mod A x m = x"
proof -
  from assms have "0 \<le> x / m" "x / m < 1" by simp_all
  then have "\<lfloor>x / m\<rfloor> = 0" by linarith
  with assms show ?thesis
    by (simp add: float_mod_def fmod_def py_trunc_def Let_def)
qed



lemma normalize_view_origin:
  "normalize_view double_arith 0 0 0 = (0, 0, 0, 128, 128, 256)"
proof -
  have x: "double (double (double (0 + 180) / 360) * 256) = 128"
    by (simp add: double_180 double_half double_128)
  have m: "float_mod double_arith 128 256 = 128"
    by (rule float_mod_in_range) simp_all
  have l: "double (double (double (128 / 256) * 360) - 180) = 0"
    by (simp add: double_180 double_half double_0)
  show ?thesis
    unfolding normalize_view_equator x m Let_def l by simp
qed

subsection \<open>The projection and its inverse in exact arithmetic\<close>

lemma e_rnd: "rnd exact_arith = (\<lambda>x. x)" by (simp add: exact_arith_def)
lemma e_pi: "math_pi exact_arith = pi" by (simp add: exact_arith_def)

lemma sinh_artanh_sin:
  assumes "- (pi / 2) < t" and "t < pi / 2"
  shows "1 / 2 * (exp (ln ((1 + sin t) / (1 - sin t)) / 2) - exp (- (ln ((1 + sin t) / (1 - sin t)) / 2)))
           = tan t"
proof -
  define s where "s = sin t"
  define c where "c = cos t"
  define a where "a = exp (ln ((1 + s) / (1 - s)) / 2)"
  have c: "0 < c" unfolding c_def using assms by (simp add: cos_gt_zero_pi)
  have sc: "s\<^sup>2 + c\<^sup>2 = 1" unfolding s_def c_def by simp
  have s1: "s < 1" "- 1 < s"
  proof -
    have "\<bar>s\<bar> < 1"
    proof (rule ccontr)
      assume "\<not> \<bar>s\<bar> < 1"
      then have "s\<^sup>2 \<ge> 1" by (metis abs_le_square_iff abs_one not_less one_power2)
      with sc have "c\<^sup>2 \<le> 0" by linarith
      moreover from c have "0 < c\<^sup>2" by simp
      ultimately show False by linarith
    qed
    then show "s < 1" "- 1 < s" by auto
  qed
  have q: "0 < (1 + s) / (1 - s)" using s1 by simp
  have a: "0 < a" by (simp add: a_def)
  have "a\<^sup>2 = exp (ln ((1 + s) / (1 - s)))"
    unfolding a_def power2_eq_square by (simp add: exp_add[symmetric])
  also have "\<dots> = (1 + s) / (1 - s)" using q by simp
  also have "\<dots> = ((1 + s) / c)\<^sup>2"
  proof -
    have c2: "c\<^sup>2 = (1 - s) * (1 + s)" using sc by (simp add: power2_eq_square algebra_simps)
    have "((1 + s) / c)\<^sup>2 = ((1 + s) * (1 + s)) / c\<^sup>2"
      by (simp add: power_divide power2_eq_square)
    also have "\<dots> = ((1 + s) * (1 + s)) / ((1 - s) * (1 + s))" by (simp only: c2)
    also have "\<dots> = (1 + s) / (1 - s)" using s1 by simp
    finally show ?thesis by simp
  qed
  finally have "a = (1 + s) / c"
    using a c s1 by (simp add: power2_eq_iff_nonneg)
  moreover have "exp (- (ln ((1 + s) / (1 - s)) / 2)) = 1 / a"
    by (simp add: a_def exp_minus inverse_eq_divide)
  ultimately have "1 / 2 * (a - exp (- (ln ((1 + s) / (1 - s)) / 2))) = 1 / 2 * ((1 + s) / c - c / (1 + s))"
    by simp
  also have "\<dots> = s / c"
  proof -
    have cc: "c * c = (1 - s) * (1 + s)" using sc by (simp add: power2_eq_square algebra_simps)
    have "(1 + s) / c - c / (1 + s) = ((1 + s) * (1 + s) - c * c) / (c * (1 + s))"
      using c s1 by (simp add: diff_divide_eq_iff divide_simps)
    also have "\<dots> = ((1 + s) * (1 + s) - (1 - s) * (1 + s)) / (c * (1 + s))" by (simp only: cc)
    also have "\<dots> = ((2 * s) * (1 + s)) / (c * (1 + s))" by (simp add: algebra_simps)
    also have "\<dots> = 2 * s / c" using s1 by simp
    finally show ?thesis by simp
  qed
  finally show ?thesis by (simp add: a_def s_def c_def tan_def)
qed

lemma exact_roundtrip:
  assumes "\<bar>lat\<bar> < 90" and "0 \<le> zoom"
  shows "(case latlon_to_world_pixel exact_arith lat lon zoom 256 of
            (wx, wy) \<Rightarrow> world_pixel_to_latlon exact_arith wx wy zoom 256)
         = (max (min lat 85.05112878) (- 85.05112878), lon)"
proof -
  define l where "l = max (min lat 85.05112878) (- 85.05112878 :: real)"
  define t where "t = l * pi / 180"
  define scale :: real where "scale = 256 * 2 powi zoom"
  have scale: "0 < scale" by (simp add: scale_def)
  have l: "\<bar>l\<bar> < 90" unfolding l_def using assms(1) by auto
  have "\<bar>t\<bar> < pi / 2"
  proof -
    have "\<bar>t\<bar> = \<bar>l\<bar> * pi / 180" by (simp add: t_def abs_mult)
    also have "\<dots> < 90 * pi / 180" using l by simp
    finally show ?thesis by simp
  qed
  then have t: "- (pi / 2) < t" "t < pi / 2" by auto
  define L where "L = ln ((1 + sin t) / (1 - sin t))"
  define y where "y = (1 / 2 - L / (4 * pi)) * scale"
  have n: "pi - 2 * pi * y / scale = L / 2"
    using scale by (simp add: y_def field_simps)
  have "180 / pi * arctan (1 / 2 * (exp (L / 2) - exp (- (L / 2)))) = l"
    unfolding L_def sinh_artanh_sin[OF t] using t by (simp add: arctan_tan t_def)
  moreover have "(lon + 180) / 360 * scale / scale * 360 - 180 = lon"
    using scale by (simp add: field_simps)
  moreover have fw: "latlon_to_world_pixel exact_arith lat lon zoom 256 = ((lon + 180) / 360 * scale, y)"
    by (simp add: latlon_to_world_pixel_def e_rnd e_pi Let_def MAX_LATITUDE_def
          l_def t_def scale_def L_def y_def)
  moreover have bw: "world_pixel_to_latlon exact_arith x y zoom 256
       = (180 / pi * arctan (1 / 2 * (exp (pi - 2 * pi * y / scale) - exp (- (pi - 2 * pi * y / scale)))),
          x / scale * 360 - 180)" for x
    by (simp add: world_pixel_to_latlon_def e_rnd e_pi Let_def scale_def)
  ultimately show ?thesis
    by (simp only: fw bw n prod.case l_def)
qed

subsection \<open>Panning from the origin\<close>

lemma move_x_double: "double (10 * max (double (1 / 5)) (double (3 / 5))) = 6"
  by (simp add: double_eval[of "-3"] double_eval[of "-1"] double_eval[of 2] dbl)

lemma double_10: "double 10 = 10" by (simp add: double_eval[of 3] dbl)
lemma double_134: "double 134 = 134" by (simp add: double_eval[of 7] dbl)
lemma double_122: "double 122 = 122" by (simp add: double_eval[of 6] dbl)

lemma lon_134: "double (double (double (67 / 128) * 360) - 180) = 135 / 16"
  by (simp add: double_eval[of "-1"] double_eval[of 7] double_eval[of 3] dbl)

lemma lon_122: "double (double (double (61 / 128) * 360) - 180) = - (135 / 16)"
  by (simp add: double_eval[of "-2"] double_eval[of 7] double_eval[of 3] dbl)

lemma pan_right_double: "pan double_arith 0 0 0 ''right'' 10 (double (3 / 5)) = (0, 135 / 16)"
proof -
  have m: "float_mod double_arith 134 256 = 134" by (rule float_mod_in_range) simp_all
  show ?thesis
    unfolding pan_def normalize_view_origin prod.case Let_def d_rnd move_x_double
    by (simp add: double_134 m TILE_SIZE_def latlon_inverse_equator lon_134)
qed

lemma pan_left_double: "pan double_arith 0 0 0 ''left'' 10 (double (3 / 5)) = (0, - (135 / 16))"
proof -
  have m: "float_mod double_arith 122 256 = 122" by (rule float_mod_in_range) simp_all
  show ?thesis
    unfolding pan_def normalize_view_origin prod.case Let_def d_rnd move_x_double
    by (simp add: double_122 m TILE_SIZE_def latlon_inverse_equator lon_122)
qed

lemma latlon_origin_exact: "latlon_to_world_pixel exact_arith 0 0 0 256 = (128, 128)"
  by (simp add: latlon_to_world_pixel_def e_rnd e_pi Let_def MAX_LATITUDE_def)

lemma inverse_equator_exact:
  "world_pixel_to_latlon exact_arith x 128 0 256 = (0, x / 256 * 360 - 180)"
  by (simp add: world_pixel_to_latlon_def e_rnd e_pi Let_def)

lemma normalize_view_origin_exact: "normalize_view exact_arith 0 0 0 = (0, 0, 0, 128, 128, 256)"
proof -
  have m: "float_mod exact_arith 128 256 = 128" by (rule float_mod_in_range) simp_all
  show ?thesis
    unfolding normalize_view_def
    by (simp add: MIN_ZOOM_def MAX_ZOOM_def TILE_SIZE_def latlon_origin_exact m
          inverse_equator_exact Let_def)
qed

lemma pan_right_exact: "pan exact_arith 0 0 0 ''right'' 10 (3 / 5) = (0, 135 / 16)"
proof -
  have m: "float_mod exact_arith 134 256 = 134" by (rule float_mod_in_range) simp_all
  show ?thesis
    unfolding pan_def normalize_view_origin_exact prod.case Let_def e_rnd
    by (simp add: m TILE_SIZE_def inverse_equator_exact WORLD_PX_PER_CELL_Y_def)
qed

lemma pan_left_exact: "pan exact_arith 0 0 0 ''left'' 10 (3 / 5) = (0, - (135 / 16))"
proof -
  have m: "float_mod exact_arith 122 256 = 122" by (rule float_mod_in_range) simp_all
  show ?thesis
    unfolding pan_def normalize_view_origin_exact prod.case Let_def e_rnd
    by (simp add: m TILE_SIZE_def inverse_equator_exact WORLD_PX_PER_CELL_Y_def)
qed

text \<open>
  Claim C8. \<^verbatim>\<open>pan(0, 0, 0, "right", 10, 0.6)\<close> returns latitude 0 and longitude 8.4375 degrees,
  \<^verbatim>\<open>pan(0, 0, 0, "left", 10, 0.6)\<close> returns latitude 0 and longitude -8.4375 degrees: positive
  and small to the right, of equal magnitude and negative to the left. This holds in double
  arithmetic, where \<^verbatim>\<open>0.6\<close> is the double nearest to \<open>3 / 5\<close>, and in exact arithmetic.
\<close>

theorem pan_origin_right_left:
  "pan double_arith 0 0 0 ''right'' 10 (double (3 / 5)) = (0, 135 / 16)
   \<and> pan double_arith 0 0 0 ''left'' 10 (double (3 / 5)) = (0, - (135 / 16))
   \<and> pan exact_arith 0 0 0 ''right'' 10 (3 / 5) = (0, 135 / 16)
   \<and> pan exact_arith 0 0 0 ''left'' 10 (3 / 5) = (0, - (135 / 16))"
  by (simp only: pan_right_double pan_left_double pan_right_exact pan_left_exact)

subsection \<open>Re-normalising a view\<close>


subsection \<open>The latitude of the world's top edge\<close>














subsection \<open>Idempotence in exact arithmetic\<close>











section \<open>The framebuffer (src/maps/render.py)\<close>

text \<open>
  A \<^verbatim>\<open>Framebuffer\<close> object is a record passed explicitly. Cells hold one character; the
  points handed to the drawing methods are pairs of integers, as \<^verbatim>\<open>render_ascii\<close> produces
  them, so \<^verbatim>\<open>int(p[1])\<close> is the identity. An index outside a list raises \<^verbatim>\<open>IndexError\<close> in
  Python, which is the value \<open>None\<close> here.
\<close>

record framebuffer =
  fb_width :: int
  fb_height :: int
  fb_buffer :: "char list list"
  fb_colors :: "int list list"


definition set_char :: "int \<Rightarrow> int \<Rightarrow> char \<Rightarrow> int \<Rightarrow> framebuffer \<Rightarrow> framebuffer option" where
  "set_char x y ch color fb =
     (if 0 \<le> x \<and> x < fb_width fb \<and> 0 \<le> y \<and> y < fb_height fb then
        (if nat y < length (fb_buffer fb) \<and> nat x < length (fb_buffer fb ! nat y)
            \<and> nat y < length (fb_colors fb) \<and> nat x < length (fb_colors fb ! nat y)
         then Some (fb\<lparr>fb_buffer := (fb_buffer fb)[nat y := (fb_buffer fb ! nat y)[nat x := ch]],
                        fb_colors := (fb_colors fb)[nat y := (fb_colors fb ! nat y)[nat x := color]]\<rparr>)
         else None)
      else Some fb)"










definition get_row :: "framebuffer \<Rightarrow> int \<Rightarrow> string option" where
  "get_row fb y = (if nat y < length (fb_buffer fb) then Some (fb_buffer fb ! nat y) else None)"


subsection \<open>What a polygon fill writes\<close>




definition inside :: "framebuffer \<Rightarrow> int \<Rightarrow> int \<Rightarrow> bool" where
  "inside fb x y = (0 \<le> x \<and> x < fb_width fb \<and> 0 \<le> y \<and> y < fb_height fb)"







































end
